theory Spec2Isabelle
  imports Complex_Main "HOL-Library.Multiset" "HOL-Library.Sublist"
begin

section \<open>Data model\<close>

text \<open>
  A registry entry is one element of the \<open>locations\<close> list of the drives registry.
  The code reads \<open>id\<close> and \<open>kind\<close> with subscripts (the key must be there) and
  \<open>volume_uuid\<close> and \<open>device_identifier\<close> with \<open>.get\<close> (a missing key reads as
  \<open>None\<close>), hence the option type of the latter two. The field \<open>id\<close> is named
  \<open>entry_id\<close>, since \<open>id\<close> is the identity function of HOL.
\<close>

record registry_entry =
  entry_id :: string
  kind :: string
  volume_uuid :: "string option"
  device_identifier :: "string option"
  name :: string
  capacity_bytes :: int
  first_seen :: string
  last_scanned :: string
  status :: string

text \<open>
  A volume descriptor is the dictionary built by \<open>get_external_drives\<close>, which sets
  every key; its fields carry the prefix \<open>d_\<close> to keep them apart from the fields of a
  registry entry.
\<close>

record drive_info =
  d_device_identifier :: string
  d_volume_uuid :: string
  d_volume_name :: string
  d_mount_point :: string
  d_capacity_bytes :: int
  d_free_bytes :: int
  d_file_system :: string

section \<open>Identity resolution\<close>

text \<open>
  \<open>find_drive_in_registry\<close>: one pass over the locations in registry order. An entry of
  kind \<open>external_drive\<close> is returned as soon as its UUID equals the descriptor's
  non-empty UUID, or its device identifier equals the descriptor's non-empty device
  identifier. A Python string is truthy when it is not empty.
\<close>

fun find_drive_in_registry :: "registry_entry list \<Rightarrow> drive_info \<Rightarrow> registry_entry option" where
  "find_drive_in_registry [] drv = None"
| "find_drive_in_registry (location # rest) drv =
     (if kind location = ''external_drive'' then
        if d_volume_uuid drv \<noteq> [] \<and> volume_uuid location = Some (d_volume_uuid drv)
        then Some location
        else if d_device_identifier drv \<noteq> []
                \<and> device_identifier location = Some (d_device_identifier drv)
        then Some location
        else find_drive_in_registry rest drv
      else find_drive_in_registry rest drv)"

section \<open>Strings\<close>





section \<open>Name allocation\<close>






section \<open>Name confirmation\<close>



section \<open>The scanner's state\<close>

text \<open>
  A directory record of a scan, and the snapshot document written for one drive.
\<close>

record dir_info =
  relative_path :: string
  depth :: int
  size_bytes :: nat
  file_count :: nat

record snapshot =
  snap_drive_id :: string
  snap_scan_date :: string
  snap_drive_info :: drive_info
  snap_directories :: "dir_info list"

text \<open>
  The state threaded through a run: \<open>registry\<close> is the list
  \<open>self.registry['locations']\<close> in memory, \<open>disk_registry\<close> the content of the
  registry file, \<open>snapshots\<close> the snapshot files by name, \<open>stdin\<close> the lines not yet
  read by the prompt, and \<open>ticks\<close> the number of clock readings made so far. Console
  output is not part of the model.
\<close>

record scanner =
  registry :: "registry_entry list"
  disk_registry :: "registry_entry list"
  snapshots :: "string \<rightharpoonup> snapshot"
  stdin :: "string list"
  ticks :: nat

definition save_registry :: "scanner \<Rightarrow> scanner" where
  "save_registry s = s\<lparr>disk_registry := registry s\<rparr>"


text \<open>
  \<open>update_last_scanned\<close>: the loop stops (\<open>break\<close>) at the first location whose id is
  the given one, after overwriting its \<open>last_scanned\<close>; the registry is saved whether
  or not a location was found.
\<close>

fun touch_locations :: "registry_entry list \<Rightarrow> string \<Rightarrow> string \<Rightarrow> registry_entry list" where
  "touch_locations [] drive_id now = []"
| "touch_locations (location # rest) drive_id now =
     (if entry_id location = drive_id
      then location\<lparr>last_scanned := now\<rparr> # rest
      else location # touch_locations rest drive_id now)"

definition update_last_scanned :: "scanner \<Rightarrow> string \<Rightarrow> string \<Rightarrow> scanner" where
  "update_last_scanned s drive_id now =
     save_registry (s\<lparr>registry := touch_locations (registry s) drive_id now\<rparr>)"


section \<open>Directory trees\<close>

text \<open>
  What the scan sees at a path. \<open>File sz\<close> is a regular file (\<open>is_file()\<close> holds,
  \<open>stat().st_size = sz\<close>); \<open>Dir items\<close> is a directory that can be listed, with its
  entries in the order \<open>iterdir()\<close> yields them; \<open>Unreadable\<close> is a directory
  (\<open>is_dir()\<close> holds) whose \<open>iterdir()\<close> raises \<open>PermissionError\<close> or another
  \<open>OSError\<close>; \<open>Special\<close> is neither a regular file nor a directory; \<open>Broken\<close> is
  an entry on which \<open>is_file()\<close> and \<open>is_dir()\<close> themselves raise an \<open>OSError\<close>
  (the entry cannot be examined). \<open>iterdir()\<close> on anything that is not a listable
  directory raises an \<open>OSError\<close>.
\<close>

datatype node =
    File nat
  | Dir "(string \<times> node) list"
  | Unreadable
  | Special
  | Broken

text \<open>
  \<open>get_dir_size_and_files\<close> with its loop over \<open>path.iterdir()\<close>; the accumulator is
  the pair \<open>(total_size, file_count)\<close>. An \<open>OSError\<close> of \<open>iterdir\<close> leaves the
  totals at zero; an \<open>OSError\<close> on one item skips that item.
\<close>

fun get_dir_size_and_files :: "node \<Rightarrow> nat \<times> nat"
  and sum_items :: "(string \<times> node) list \<Rightarrow> nat \<times> nat \<Rightarrow> nat \<times> nat" where
  "get_dir_size_and_files (Dir items) = sum_items items (0, 0)"
| "get_dir_size_and_files (File sz) = (0, 0)"
| "get_dir_size_and_files Unreadable = (0, 0)"
| "get_dir_size_and_files Special = (0, 0)"
| "get_dir_size_and_files Broken = (0, 0)"
| "sum_items [] acc = acc"
| "sum_items ((nm, File sz) # rest) (total_size, fcount) =
     sum_items rest (total_size + sz, fcount + 1)"
| "sum_items ((nm, Dir sub) # rest) (total_size, fcount) =
     (let (dir_size, dir_files) = get_dir_size_and_files (Dir sub)
      in sum_items rest (total_size + dir_size, fcount + dir_files))"
| "sum_items ((nm, Unreadable) # rest) (total_size, fcount) =
     (let (dir_size, dir_files) = get_dir_size_and_files Unreadable
      in sum_items rest (total_size + dir_size, fcount + dir_files))"
| "sum_items ((nm, Special) # rest) acc = sum_items rest acc"
| "sum_items ((nm, Broken) # rest) acc = sum_items rest acc"

text \<open>
  The path of a directory relative to the scan root is the list of the names leading to
  it. \<open>str\<close> of such a path joins the names with \<open>/\<close> and is \<open>.\<close> for the empty
  path, which \<open>scan_recursive\<close> replaces by \<open>/\<close>.
\<close>

fun join_path :: "string list \<Rightarrow> string" where
  "join_path [] = []"
| "join_path [x] = x"
| "join_path (x # y # ys) = x @ ''/'' @ join_path (y # ys)"

definition path_str :: "string list \<Rightarrow> string" where
  "path_str rel = (if rel = [] then ''.'' else join_path rel)"

definition relative_path_of :: "string list \<Rightarrow> string" where
  "relative_path_of rel = (let s = path_str rel in if s = ''.'' then ''/'' else s)"

text \<open>
  \<open>scan_recursive\<close> returns the records it appends to \<open>directories\<close>, in order.
  \<open>rel\<close> is the path of \<open>current\<close> relative to the root; \<open>current_path\<close> is the
  root followed by these names, so \<open>relative_to(root)\<close> does not raise
  \<open>ValueError\<close>. The record is appended before
  the entries are listed, so it stays when \<open>iterdir\<close> raises. In the loop over the
  entries an \<open>OSError\<close> of \<open>is_dir()\<close> leaves the loop (the handler is outside it),
  so the remaining entries are not visited.
\<close>

fun scan_recursive :: "int \<Rightarrow> string list \<Rightarrow> node \<Rightarrow> int \<Rightarrow> dir_info list"
  and scan_subdirs :: "int \<Rightarrow> string list \<Rightarrow> (string \<times> node) list \<Rightarrow> int \<Rightarrow> dir_info list" where
  "scan_recursive max_depth rel current current_depth =
     (if current_depth > max_depth then []
      else
        let (sz, fc) = get_dir_size_and_files current;
            info = \<lparr>relative_path = relative_path_of rel,
                    depth = current_depth,
                    size_bytes = sz,
                    file_count = fc\<rparr>
        in info #
           (if current_depth < max_depth then
              (case current of
                 Dir items \<Rightarrow> scan_subdirs max_depth rel items current_depth
               | _ \<Rightarrow> [])
            else []))"
| "scan_subdirs max_depth rel [] current_depth = []"
| "scan_subdirs max_depth rel ((nm, File sz) # rest) current_depth =
     scan_subdirs max_depth rel rest current_depth"
| "scan_subdirs max_depth rel ((nm, Dir sub) # rest) current_depth =
     scan_recursive max_depth (rel @ [nm]) (Dir sub) (current_depth + 1)
     @ scan_subdirs max_depth rel rest current_depth"
| "scan_subdirs max_depth rel ((nm, Unreadable) # rest) current_depth =
     scan_recursive max_depth (rel @ [nm]) Unreadable (current_depth + 1)
     @ scan_subdirs max_depth rel rest current_depth"
| "scan_subdirs max_depth rel ((nm, Special) # rest) current_depth =
     scan_subdirs max_depth rel rest current_depth"
| "scan_subdirs max_depth rel ((nm, Broken) # rest) current_depth = []"

definition scan_directory_tree :: "node \<Rightarrow> int \<Rightarrow> dir_info list" where
  "scan_directory_tree root_dir max_depth = scan_recursive max_depth [] root_dir 0"

section \<open>The run over all drives\<close>







section \<open>Notions used to state the properties\<close>

text \<open>
  An entry matches a descriptor when \<open>find_drive_in_registry\<close> would return it on
  meeting it: by UUID or by device identifier.
\<close>

definition matches_uuid :: "drive_info \<Rightarrow> registry_entry \<Rightarrow> bool" where
  "matches_uuid drv location =
     (kind location = ''external_drive'' \<and> d_volume_uuid drv \<noteq> []
      \<and> volume_uuid location = Some (d_volume_uuid drv))"

definition matches_device :: "drive_info \<Rightarrow> registry_entry \<Rightarrow> bool" where
  "matches_device drv location =
     (kind location = ''external_drive'' \<and> d_device_identifier drv \<noteq> []
      \<and> device_identifier location = Some (d_device_identifier drv))"

definition matches :: "drive_info \<Rightarrow> registry_entry \<Rightarrow> bool" where
  "matches drv location = (matches_uuid drv location \<or> matches_device drv location)"

text \<open>
  Looking a relative path up in a tree, one name at a time. In a file system the names
  of a directory are distinct, not empty, without \<open>/\<close>, and neither \<open>.\<close> nor
  \<open>..\<close>: \<open>wf_names\<close>.
\<close>

definition child_of :: "node \<Rightarrow> string \<Rightarrow> node option" where
  "child_of n nm = (case n of Dir items \<Rightarrow> map_of items nm | _ \<Rightarrow> None)"

fun node_at :: "node \<Rightarrow> string list \<Rightarrow> node option" where
  "node_at n [] = Some n"
| "node_at n (nm # rel) = (case child_of n nm of None \<Rightarrow> None | Some c \<Rightarrow> node_at c rel)"


definition valid_name :: "string \<Rightarrow> bool" where
  "valid_name nm = (nm \<noteq> [] \<and> CHR ''/'' \<notin> set nm \<and> nm \<noteq> ''.'' \<and> nm \<noteq> ''..'')"

fun wf_names :: "node \<Rightarrow> bool"
  and wf_items :: "(string \<times> node) list \<Rightarrow> bool" where
  "wf_names (Dir items) = (distinct (map fst items) \<and> wf_items items)"
| "wf_names (File sz) = True"
| "wf_names Unreadable = True"
| "wf_names Special = True"
| "wf_names Broken = True"
| "wf_items [] = True"
| "wf_items ((nm, c) # rest) = (valid_name nm \<and> wf_names c \<and> wf_items rest)"


text \<open>
  The relative path \<open>b\<close> is a strict descendant of the relative path \<open>a\<close>, both as
  the strings of the records: everything but the root is below the root \<open>/\<close>, and
  otherwise \<open>b\<close> continues \<open>a\<close> after a separator.
\<close>

definition strict_descendant :: "string \<Rightarrow> string \<Rightarrow> bool" where
  "strict_descendant a b = (if a = ''/'' then b \<noteq> ''/'' else prefix (a @ ''/'') b)"

text \<open>
  The directories a scan reaches, as pairs of relative path and node, given the number
  \<open>k\<close> of levels still allowed below the current one; used to reason about
  \<open>scan_recursive\<close>.
\<close>

fun emitted :: "nat \<Rightarrow> node \<Rightarrow> (string list \<times> node) list"
  and emitted_items :: "nat \<Rightarrow> (string \<times> node) list \<Rightarrow> (string list \<times> node) list" where
  "emitted k (Dir items) = ([], Dir items) # (case k of 0 \<Rightarrow> [] | Suc k' \<Rightarrow> emitted_items k' items)"
| "emitted k (File sz) = [([], File sz)]"
| "emitted k Unreadable = [([], Unreadable)]"
| "emitted k Special = [([], Special)]"
| "emitted k Broken = [([], Broken)]"
| "emitted_items k [] = []"
| "emitted_items k ((nm, File sz) # rest) = emitted_items k rest"
| "emitted_items k ((nm, Dir sub) # rest) =
     map (\<lambda>(q, m). (nm # q, m)) (emitted k (Dir sub)) @ emitted_items k rest"
| "emitted_items k ((nm, Unreadable) # rest) =
     map (\<lambda>(q, m). (nm # q, m)) (emitted k Unreadable) @ emitted_items k rest"
| "emitted_items k ((nm, Special) # rest) = emitted_items k rest"
| "emitted_items k ((nm, Broken) # rest) = []"

text \<open>
  The regular files beneath a node, each with its path relative to the node and its
  size.
\<close>

fun regular_files :: "node \<Rightarrow> (string list \<times> nat) list"
  and regular_files_items :: "(string \<times> node) list \<Rightarrow> (string list \<times> nat) list" where
  "regular_files (Dir items) = regular_files_items items"
| "regular_files (File sz) = []"
| "regular_files Unreadable = []"
| "regular_files Special = []"
| "regular_files Broken = []"
| "regular_files_items [] = []"
| "regular_files_items ((nm, File sz) # rest) = ([nm], sz) # regular_files_items rest"
| "regular_files_items ((nm, Dir sub) # rest) =
     map (\<lambda>(q, sz). (nm # q, sz)) (regular_files (Dir sub)) @ regular_files_items rest"
| "regular_files_items ((nm, Unreadable) # rest) = regular_files_items rest"
| "regular_files_items ((nm, Special) # rest) = regular_files_items rest"
| "regular_files_items ((nm, Broken) # rest) = regular_files_items rest"

text \<open>
  The record that \<open>scan_recursive\<close> appends for the node \<open>m\<close> found at the path
  \<open>q\<close> below a directory whose own relative path is \<open>rel\<close> and depth is \<open>d\<close>.
\<close>

definition info_of :: "string list \<Rightarrow> int \<Rightarrow> string list \<times> node \<Rightarrow> dir_info" where
  "info_of rel d qm =
     \<lparr>relative_path = relative_path_of (rel @ fst qm),
      depth = d + int (length (fst qm)),
      size_bytes = fst (get_dir_size_and_files (snd qm)),
      file_count = snd (get_dir_size_and_files (snd qm))\<rparr>"

section \<open>Example data\<close>

text \<open>
  Two registered drives, a descriptor that carries the UUID of the second and the
  device identifier of the first, and the same descriptor under a device identifier that
  is not registered.
\<close>

definition thor_entry :: registry_entry where
  "thor_entry =
     \<lparr>entry_id = ''THOR'', kind = ''external_drive'', volume_uuid = Some ''XYZ-789'',
      device_identifier = Some ''disk2s1'', name = ''THOR'', capacity_bytes = 8796093022208,
      first_seen = ''2024-01-01T00:00:00Z'', last_scanned = ''2024-01-01T00:00:00Z'',
      status = ''active''\<rparr>"

definition nova_entry :: registry_entry where
  "nova_entry =
     \<lparr>entry_id = ''NOVA'', kind = ''external_drive'', volume_uuid = Some ''ABC-123'',
      device_identifier = Some ''disk3s1'', name = ''NOVA'', capacity_bytes = 2199023255552,
      first_seen = ''2024-02-01T00:00:00Z'', last_scanned = ''2024-02-01T00:00:00Z'',
      status = ''active''\<rparr>"

definition nova_on_disk2 :: drive_info where
  "nova_on_disk2 =
     \<lparr>d_device_identifier = ''disk2s1'', d_volume_uuid = ''ABC-123'', d_volume_name = ''Nova'',
      d_mount_point = ''/Volumes/Nova'', d_capacity_bytes = 2199023255552,
      d_free_bytes = 1099511627776, d_file_system = ''apfs''\<rparr>"

definition nova_on_disk9 :: drive_info where
  "nova_on_disk9 = nova_on_disk2\<lparr>d_device_identifier := ''disk9s1''\<rparr>"


definition example_tree :: node where
  "example_tree =
     Dir [(''a'', Dir [(''b'', Dir [(''file.txt'', File 10)]),
                      (''c'', Dir [(''file.txt'', File 20)])])]"







section \<open>Updating the scan timestamp\<close>

lemma touch_length: "length (touch_locations reg i now) = length reg"
  by (induction reg) auto

lemma touch_nth:
  "j < length reg \<Longrightarrow>
   touch_locations reg i now ! j = reg ! j
   \<or> (entry_id (reg ! j) = i \<and> touch_locations reg i now ! j = (reg ! j)\<lparr>last_scanned := now\<rparr>)"
proof (induction reg arbitrary: j)
  case Nil then show ?case by simp
next
  case (Cons a reg)
  then show ?case by (cases j) auto
qed

lemma touch_absent: "i \<notin> entry_id ` set reg \<Longrightarrow> touch_locations reg i now = reg"
  by (induction reg) auto

lemma touch_first:
  "i \<notin> entry_id ` set pre \<Longrightarrow> entry_id e = i \<Longrightarrow>
   touch_locations (pre @ e # post) i now = pre @ e\<lparr>last_scanned := now\<rparr> # post"
  by (induction pre) auto

lemma touch_fields:
  "j < length reg \<Longrightarrow>
     entry_id (touch_locations reg i now ! j) = entry_id (reg ! j)
   \<and> kind (touch_locations reg i now ! j) = kind (reg ! j)
   \<and> volume_uuid (touch_locations reg i now ! j) = volume_uuid (reg ! j)
   \<and> device_identifier (touch_locations reg i now ! j) = device_identifier (reg ! j)
   \<and> name (touch_locations reg i now ! j) = name (reg ! j)
   \<and> capacity_bytes (touch_locations reg i now ! j) = capacity_bytes (reg ! j)
   \<and> first_seen (touch_locations reg i now ! j) = first_seen (reg ! j)
   \<and> status (touch_locations reg i now ! j) = status (reg ! j)"
proof -
  assume "j < length reg"
  from touch_nth[OF this, of i now]
  have "touch_locations reg i now ! j = reg ! j
    \<or> touch_locations reg i now ! j = (reg ! j)\<lparr>last_scanned := now\<rparr>" by blast
  then show ?thesis
  proof
    assume "touch_locations reg i now ! j = reg ! j"
    then show ?thesis by simp
  next
    assume "touch_locations reg i now ! j = (reg ! j)\<lparr>last_scanned := now\<rparr>"
    then show ?thesis by simp
  qed
qed

text \<open>
  Claim C9. \<open>update_last_scanned\<close> keeps the length of the registry; each entry is
  either untouched or has the given id and differs from the old one in \<open>last_scanned\<close>
  alone, so that the fields id, kind, volume_uuid, device_identifier, name,
  capacity_bytes, first_seen and status of every entry are as before; the entry changed
  is the first one with the given id; when no entry has the id the registry is the same
  list. The saved registry is the registry in memory, and nothing else of the state
  changes.
\<close>

theorem update_last_scanned_frame:
  "(let s' = update_last_scanned s drive_id now in
     length (registry s') = length (registry s)
    \<and> (\<forall>j < length (registry s).
          registry s' ! j = registry s ! j
          \<or> (entry_id (registry s ! j) = drive_id
              \<and> registry s' ! j = (registry s ! j)\<lparr>last_scanned := now\<rparr>))
    \<and> (\<forall>j < length (registry s).
          entry_id (registry s' ! j) = entry_id (registry s ! j)
          \<and> kind (registry s' ! j) = kind (registry s ! j)
          \<and> volume_uuid (registry s' ! j) = volume_uuid (registry s ! j)
          \<and> device_identifier (registry s' ! j) = device_identifier (registry s ! j)
          \<and> name (registry s' ! j) = name (registry s ! j)
          \<and> capacity_bytes (registry s' ! j) = capacity_bytes (registry s ! j)
          \<and> first_seen (registry s' ! j) = first_seen (registry s ! j)
          \<and> status (registry s' ! j) = status (registry s ! j))
    \<and> (\<forall>pre location post.
          registry s = pre @ location # post \<and> entry_id location = drive_id
          \<and> drive_id \<notin> entry_id ` set pre
          \<longrightarrow> registry s' = pre @ location\<lparr>last_scanned := now\<rparr> # post)
    \<and> (drive_id \<notin> entry_id ` set (registry s) \<longrightarrow> registry s' = registry s)
    \<and> disk_registry s' = registry s'
    \<and> snapshots s' = snapshots s \<and> stdin s' = stdin s \<and> ticks s' = ticks s)"
proof -
  define s' where "s' = update_last_scanned s drive_id now"
  have r: "registry s' = touch_locations (registry s) drive_id now"
    by (simp add: s'_def update_last_scanned_def save_registry_def)
  have p1: "length (registry s') = length (registry s)"
    unfolding r by (rule touch_length)
  have p2: "\<forall>j < length (registry s).
          registry s' ! j = registry s ! j
          \<or> (entry_id (registry s ! j) = drive_id
              \<and> registry s' ! j = (registry s ! j)\<lparr>last_scanned := now\<rparr>)"
    unfolding r using touch_nth by blast
  have p3: "\<forall>j < length (registry s).
          entry_id (registry s' ! j) = entry_id (registry s ! j)
          \<and> kind (registry s' ! j) = kind (registry s ! j)
          \<and> volume_uuid (registry s' ! j) = volume_uuid (registry s ! j)
          \<and> device_identifier (registry s' ! j) = device_identifier (registry s ! j)
          \<and> name (registry s' ! j) = name (registry s ! j)
          \<and> capacity_bytes (registry s' ! j) = capacity_bytes (registry s ! j)
          \<and> first_seen (registry s' ! j) = first_seen (registry s ! j)
          \<and> status (registry s' ! j) = status (registry s ! j)"
    unfolding r using touch_fields by blast
  have p4: "\<forall>pre location post.
          registry s = pre @ location # post \<and> entry_id location = drive_id
          \<and> drive_id \<notin> entry_id ` set pre
          \<longrightarrow> registry s' = pre @ location\<lparr>last_scanned := now\<rparr> # post"
    unfolding r using touch_first by simp
  have p5: "drive_id \<notin> entry_id ` set (registry s) \<longrightarrow> registry s' = registry s"
    unfolding r using touch_absent by blast
  have p6: "disk_registry s' = registry s' \<and> snapshots s' = snapshots s
      \<and> stdin s' = stdin s \<and> ticks s' = ticks s"
    by (simp add: s'_def update_last_scanned_def save_registry_def)
  from p1 p2 p3 p4 p5 p6 show ?thesis
    unfolding s'_def[symmetric] Let_def by (intro conjI) simp_all
qed

theorem update_last_scanned_frame_witness:
  "(let s = \<lparr>registry = [thor_entry, nova_entry], disk_registry = [], snapshots = Map.empty,
             stdin = [], ticks = 0\<rparr>;
        s' = update_last_scanned s ''NOVA'' ''2024-03-01T00:00:00Z'' in
      registry s' = [thor_entry, nova_entry\<lparr>last_scanned := ''2024-03-01T00:00:00Z''\<rparr>]
      \<and> registry (update_last_scanned s ''HULK'' ''2024-03-01T00:00:00Z'') = registry s)"
  using update_last_scanned_frame[of "\<lparr>registry = [thor_entry, nova_entry], disk_registry = [], snapshots = Map.empty,
             stdin = [], ticks = 0\<rparr>" "''NOVA''" "''2024-03-01T00:00:00Z''"]
   update_last_scanned_frame[of "\<lparr>registry = [thor_entry, nova_entry], disk_registry = [], snapshots = Map.empty,
             stdin = [], ticks = 0\<rparr>" "''HULK''" "''2024-03-01T00:00:00Z''"]
  by (simp add: Let_def thor_entry_def nova_entry_def update_last_scanned_def save_registry_def)

section \<open>Identity resolution: the first matching entry\<close>

lemma find_drive_is_find: "find_drive_in_registry reg drv = List.find (matches drv) reg"
  by (induction reg) (auto simp: matches_def matches_uuid_def matches_device_def)

lemma find_drive_first:
  "\<forall>x\<in>set pre. \<not> matches drv x \<Longrightarrow> matches drv location \<Longrightarrow>
   find_drive_in_registry (pre @ location # post) drv = Some location"
  unfolding find_drive_is_find by (induction pre) auto

lemma find_drive_None: "find_drive_in_registry reg drv = None \<longleftrightarrow> (\<forall>x\<in>set reg. \<not> matches drv x)"
  unfolding find_drive_is_find by (auto simp: find_None_iff)

lemma find_drive_Some_matches:
  "find_drive_in_registry reg drv = Some location \<Longrightarrow> location \<in> set reg \<and> matches drv location"
  unfolding find_drive_is_find by (auto simp: find_Some_iff)

lemma find_drive_touch:
  "map_option entry_id (find_drive_in_registry (touch_locations reg i now) drv)
   = map_option entry_id (find_drive_in_registry reg drv)"
  by (induction reg) auto

text \<open>
  Claim C1, as stated, fails: with \<open>THOR\<close> registered before \<open>NOVA\<close>, a descriptor
  that carries the UUID of \<open>NOVA\<close> and the device identifier of \<open>THOR\<close> resolves to
  \<open>THOR\<close>, although an entry matches by UUID.
\<close>

theorem find_drive_uuid_first_counterexample:
  "d_volume_uuid nova_on_disk2 \<noteq> []
   \<and> nova_entry \<in> set [thor_entry, nova_entry]
   \<and> kind nova_entry = ''external_drive''
   \<and> volume_uuid nova_entry = Some (d_volume_uuid nova_on_disk2)
   \<and> map_option entry_id (find_drive_in_registry [thor_entry, nova_entry] nova_on_disk2)
       \<noteq> Some (entry_id nova_entry)
   \<and> map_option entry_id (find_drive_in_registry [thor_entry, nova_entry] nova_on_disk2)
       = Some ''THOR''"
  by (simp add: thor_entry_def nova_entry_def nova_on_disk2_def)

text \<open>
  Claim C1, amended. Resolution returns the first entry, in registry order, of kind
  \<open>external_drive\<close> that matches the descriptor by its non-empty UUID or by its
  non-empty device identifier: an entry that matches (by UUID, in particular) is the
  result when no entry before it matches by either key, and the result is \<open>None\<close>
  exactly when no entry matches. The function only reads the registry.
\<close>

theorem find_drive_first_match:
  "((\<forall>x\<in>set pre. \<not> matches_uuid drv x \<and> \<not> matches_device drv x)
      \<and> (matches_uuid drv location \<or> matches_device drv location)
     \<longrightarrow> find_drive_in_registry (pre @ location # post) drv = Some location
         \<and> map_option entry_id (find_drive_in_registry (pre @ location # post) drv)
             = Some (entry_id location))
   \<and> (find_drive_in_registry reg drv = None
        \<longleftrightarrow> (\<forall>x\<in>set reg. \<not> matches_uuid drv x \<and> \<not> matches_device drv x))"
  using find_drive_first[of pre drv location post] find_drive_None[of reg drv]
  by (simp add: matches_def)

theorem find_drive_first_match_witness:
  "map_option entry_id (find_drive_in_registry [thor_entry, nova_entry] nova_on_disk9) = Some ''NOVA''
   \<and> matches_uuid nova_on_disk9 nova_entry
   \<and> \<not> matches_uuid nova_on_disk9 thor_entry \<and> \<not> matches_device nova_on_disk9 thor_entry"
  using find_drive_first_match[of "[thor_entry]" nova_on_disk9 nova_entry "[]" "[]"]
  by (simp add: matches_uuid_def matches_device_def thor_entry_def nova_entry_def
      nova_on_disk9_def nova_on_disk2_def)

text \<open>
  Claim C2, as stated, fails: both entries match the descriptor (one by device
  identifier, one by UUID), and the two orders of the registry resolve it to different
  ids.
\<close>

theorem find_drive_order_counterexample:
  "mset [nova_entry, thor_entry] = mset [thor_entry, nova_entry]
   \<and> matches nova_on_disk2 thor_entry \<and> matches nova_on_disk2 nova_entry
   \<and> map_option entry_id (find_drive_in_registry [thor_entry, nova_entry] nova_on_disk2) = Some ''THOR''
   \<and> map_option entry_id (find_drive_in_registry [nova_entry, thor_entry] nova_on_disk2) = Some ''NOVA''"
  by (simp add: matches_def matches_uuid_def matches_device_def thor_entry_def nova_entry_def
      nova_on_disk2_def)

text \<open>
  Claim C2, amended. When all entries that match the descriptor carry the same id (in
  particular when one entry matches), every permutation of the registry resolves the
  descriptor to that id; and resolving again after \<open>last_scanned\<close> was updated gives
  the same id as before.
\<close>

theorem find_drive_permutation:
  assumes "mset reg' = mset reg"
    and "\<forall>a\<in>set reg. \<forall>b\<in>set reg. matches drv a \<and> matches drv b \<longrightarrow> entry_id a = entry_id b"
  shows "map_option entry_id (find_drive_in_registry reg' drv)
         = map_option entry_id (find_drive_in_registry reg drv)
       \<and> map_option entry_id (find_drive_in_registry (registry (update_last_scanned s drive_id now)) drv)
         = map_option entry_id (find_drive_in_registry (registry s) drv)"
proof
  have sets: "set reg' = set reg"
    using assms(1) by (rule mset_eq_setD)
  show "map_option entry_id (find_drive_in_registry reg' drv)
         = map_option entry_id (find_drive_in_registry reg drv)"
  proof (cases "find_drive_in_registry reg drv")
    case None
    then have "\<forall>x\<in>set reg'. \<not> matches drv x"
      using sets by (simp add: find_drive_None)
    then have "find_drive_in_registry reg' drv = None"
      by (simp add: find_drive_None)
    with None show ?thesis by simp
  next
    case (Some a)
    then have a: "a \<in> set reg" "matches drv a"
      using find_drive_Some_matches by blast+
    then have "\<not> (\<forall>x\<in>set reg'. \<not> matches drv x)"
      using sets by blast
    then obtain b where b: "find_drive_in_registry reg' drv = Some b"
      using find_drive_None[of reg' drv] by (cases "find_drive_in_registry reg' drv") auto
    then have "b \<in> set reg" "matches drv b"
      using find_drive_Some_matches sets by blast+
    with a assms(2) have "entry_id a = entry_id b" by blast
    with Some b show ?thesis by simp
  qed
next
  show "map_option entry_id (find_drive_in_registry (registry (update_last_scanned s drive_id now)) drv)
         = map_option entry_id (find_drive_in_registry (registry s) drv)"
    by (simp add: update_last_scanned_def save_registry_def find_drive_touch)
qed

theorem find_drive_permutation_witness:
  "mset [nova_entry, thor_entry] = mset [thor_entry, nova_entry]
   \<and> map_option entry_id (find_drive_in_registry [nova_entry, thor_entry] nova_on_disk9) = Some ''NOVA''
   \<and> map_option entry_id (find_drive_in_registry [thor_entry, nova_entry] nova_on_disk9) = Some ''NOVA''"
proof -
  have h1: "mset [nova_entry, thor_entry] = mset [thor_entry, nova_entry]" by simp
  have h2: "\<forall>a\<in>set [thor_entry, nova_entry]. \<forall>b\<in>set [thor_entry, nova_entry].
      matches nova_on_disk9 a \<and> matches nova_on_disk9 b \<longrightarrow> entry_id a = entry_id b"
    by (simp add: matches_def matches_uuid_def matches_device_def thor_entry_def nova_entry_def
      nova_on_disk9_def nova_on_disk2_def)
  have "map_option entry_id (find_drive_in_registry [thor_entry, nova_entry] nova_on_disk9) = Some ''NOVA''"
    by (simp add: thor_entry_def nova_entry_def nova_on_disk9_def nova_on_disk2_def)
  with find_drive_permutation[OF h1 h2] h1 show ?thesis by simp
qed

section \<open>The allocator returns the first unused name\<close>





section \<open>Scanning with a negative depth bound\<close>

text \<open>
  Claim C10. With a negative \<open>max_depth\<close> the scan returns the empty list, whatever
  the root is: the depth guard refuses depth 0 before anything is appended.
\<close>

theorem scan_negative_depth_empty:
  "max_depth < 0 \<Longrightarrow> scan_directory_tree root_dir max_depth = []"
  by (simp add: scan_directory_tree_def)

theorem scan_negative_depth_empty_witness:
  "(-1 :: int) < 0 \<and> scan_directory_tree example_tree (-1) = []"
  using scan_negative_depth_empty[of "-1" example_tree] by simp

section \<open>Aggregation of sizes and file counts\<close>

lemma snd_comp_prefix: "snd \<circ> (\<lambda>(q, y). (f q, y)) = snd"
  by (rule ext) (simp add: case_prod_beta)

lemma totals_regular_files:
  "get_dir_size_and_files n = (sum_list (map snd (regular_files n)), length (regular_files n))"
  "sum_items items acc =
     (fst acc + sum_list (map snd (regular_files_items items)),
      snd acc + length (regular_files_items items))"
proof (induction n and items acc rule: get_dir_size_and_files_sum_items.induct)
  case (8 nm sub rest total_size fcount)
  show ?case
    using 8 by (simp add: case_prod_beta Let_def snd_comp_prefix del: regular_files.simps)
qed (simp_all add: case_prod_beta)

lemma map_of_distinct: "distinct (map fst items) \<Longrightarrow> map_of items nm = Some c \<longleftrightarrow> (nm, c) \<in> set items"
  by simp

lemma node_at_append:
  "node_at n (p @ r) = (case node_at n p of None \<Rightarrow> None | Some m \<Rightarrow> node_at m r)"
  by (induction p arbitrary: n) (auto split: option.splits)

lemma node_at_leaf:
  "node_at (File sz) q = Some m \<longleftrightarrow> q = [] \<and> m = File sz"
  "node_at Unreadable q = Some m \<longleftrightarrow> q = [] \<and> m = Unreadable"
  "node_at Special q = Some m \<longleftrightarrow> q = [] \<and> m = Special"
  "node_at Broken q = Some m \<longleftrightarrow> q = [] \<and> m = Broken"
  by (cases q; auto simp: child_of_def)+

lemma node_at_Dir_Cons:
  "distinct (map fst items) \<Longrightarrow>
   node_at (Dir items) (nm # q) = Some m \<longleftrightarrow> (\<exists>c. (nm, c) \<in> set items \<and> node_at c q = Some m)"
  by (auto simp: child_of_def split: option.splits dest: eq_key_imp_eq_value)

lemma wf_items_set: "wf_items items \<Longrightarrow> (nm, c) \<in> set items \<Longrightarrow> valid_name nm \<and> wf_names c"
  by (induction items) auto

lemma fst_comp_prefix: "fst \<circ> (\<lambda>(q, y). (f q, y)) = f \<circ> fst"
  by (rule ext) (simp add: case_prod_beta)

lemma under_mem:
  "(p, y) \<in> set (map (\<lambda>(q, y). (nm # q, y)) xs) \<longleftrightarrow> (\<exists>q. p = nm # q \<and> (q, y) \<in> set xs)"
  by (induction xs) auto

lemma under_distinct:
  "distinct (map fst (map (\<lambda>(q, y). (nm # q, y)) xs)) \<longleftrightarrow> distinct (map fst xs)"
proof -
  have "map fst (map (\<lambda>(q, y). (nm # q, y)) xs) = map ((#) nm) (map fst xs)"
    by (simp add: fst_comp_prefix)
  then show ?thesis by (simp add: distinct_map del: map_map)
qed

lemma regular_files_items_head:
  "(q, sz) \<in> set (regular_files_items items) \<Longrightarrow> \<exists>nm q'. q = nm # q' \<and> nm \<in> fst ` set items"
proof (induction items)
  case Nil
  then show ?case by simp
next
  case (Cons a items)
  obtain nm c where a: "a = (nm, c)" by (cases a)
  show ?case
  proof (cases c)
    case (Dir sub)
    from Cons.prems have "(q, sz) \<in> set (map (\<lambda>(q, y). (nm # q, y)) (regular_files (Dir sub)))
        \<or> (q, sz) \<in> set (regular_files_items items)"
      unfolding a Dir by (simp del: regular_files.simps)
    then show ?thesis
    proof
      assume "(q, sz) \<in> set (map (\<lambda>(q, y). (nm # q, y)) (regular_files (Dir sub)))"
      then obtain q' where "q = nm # q'" unfolding under_mem by blast
      then show ?thesis unfolding a by simp
    next
      assume "(q, sz) \<in> set (regular_files_items items)"
      from Cons.IH[OF this] show ?thesis by auto
    qed
  next
    case (File x)
    with Cons show ?thesis unfolding a by auto
  next
    case Unreadable
    with Cons show ?thesis unfolding a by auto
  next
    case Special
    with Cons show ?thesis unfolding a by auto
  next
    case Broken
    with Cons show ?thesis unfolding a by auto
  qed
qed

lemma ex_items_Cons:
  "(\<exists>nm' c' q'. q = nm' # q' \<and> (nm', c') \<in> set ((nm, c) # rest) \<and> P c' q')
   \<longleftrightarrow> (\<exists>q'. q = nm # q' \<and> P c q')
       \<or> (\<exists>nm' c' q'. q = nm' # q' \<and> (nm', c') \<in> set rest \<and> P c' q')"
  by auto

lemma regular_files_mem:
  "wf_names n \<Longrightarrow> (q, sz) \<in> set (regular_files n) \<longleftrightarrow> q \<noteq> [] \<and> node_at n q = Some (File sz)"
  "wf_items items \<Longrightarrow>
     (q, sz) \<in> set (regular_files_items items)
     \<longleftrightarrow> (\<exists>nm c q'. q = nm # q' \<and> (nm, c) \<in> set items \<and> node_at c q' = Some (File sz))"
proof (induction n and items arbitrary: q and q rule: regular_files_regular_files_items.induct)
  case (1 items)
  then have d: "distinct (map fst items)" and w: "wf_items items" by simp_all
  show ?case
  proof (cases q)
    case Nil
    then show ?thesis using 1(1)[OF w, of q] by simp
  next
    case (Cons nm q')
    have "(q, sz) \<in> set (regular_files (Dir items)) \<longleftrightarrow>
      (\<exists>c. (nm, c) \<in> set items \<and> node_at c q' = Some (File sz))"
      using 1(1)[OF w, of q] unfolding Cons by simp
    then show ?thesis using node_at_Dir_Cons[OF d, of nm q' "File sz"] unfolding Cons by simp
  qed
next
  case (2 sz')
  show ?case by (cases q) (simp_all add: child_of_def)
next
  case 3
  show ?case by (cases q) (simp_all add: child_of_def)
next
  case 4
  show ?case by (cases q) (simp_all add: child_of_def)
next
  case 5
  show ?case by (cases q) (simp_all add: child_of_def)
next
  case 6
  show ?case by simp
next
  case (7 nm sz' rest)
  then have w2: "wf_items rest" by simp
  have "(q, sz) \<in> set (regular_files_items ((nm, File sz') # rest))
      \<longleftrightarrow> (q = [nm] \<and> sz = sz') \<or> (q, sz) \<in> set (regular_files_items rest)"
    by auto
  then show ?case
    unfolding 7(1)[OF w2]
      ex_items_Cons[of q nm "File sz'" rest "\<lambda>c q'. node_at c q' = Some (File sz)"]
    by (auto simp: node_at_leaf)
next
  case (8 nm sub rest)
  then have w1: "wf_names (Dir sub)" and w2: "wf_items rest" by simp_all
  have sub: "\<And>q'. (q', sz) \<in> set (regular_files (Dir sub))
      \<longleftrightarrow> q' \<noteq> [] \<and> node_at (Dir sub) q' = Some (File sz)"
    using 8(1)[OF w1] by blast
  have nonempty: "\<And>q'. node_at (Dir sub) q' = Some (File sz) \<Longrightarrow> q' \<noteq> []"
    by auto
  show ?case
    unfolding ex_items_Cons regular_files_items.simps set_append Un_iff under_mem sub 8(2)[OF w2]
    using nonempty by blast
next
  case (9 nm rest)
  then have w2: "wf_items rest" by simp
  show ?case
    unfolding ex_items_Cons regular_files_items.simps 9(1)[OF w2] node_at_leaf by simp
next
  case (10 nm rest)
  then have w2: "wf_items rest" by simp
  show ?case
    unfolding ex_items_Cons regular_files_items.simps 10(1)[OF w2] node_at_leaf by simp
next
  case (11 nm rest)
  then have w2: "wf_items rest" by simp
  show ?case
    unfolding ex_items_Cons regular_files_items.simps 11(1)[OF w2] node_at_leaf by simp
qed

lemma regular_files_distinct:
  "wf_names n \<Longrightarrow> distinct (map fst (regular_files n))"
  "distinct (map fst items) \<Longrightarrow> wf_items items \<Longrightarrow> distinct (map fst (regular_files_items items))"
proof (induction n and items rule: regular_files_regular_files_items.induct)
  case (7 nm sz rest)
  then have d2: "distinct (map fst (regular_files_items rest))" and nm: "nm \<notin> fst ` set rest"
    by simp_all
  have "[nm] \<notin> fst ` set (regular_files_items rest)"
  proof
    assume "[nm] \<in> fst ` set (regular_files_items rest)"
    then obtain sz' where "([nm], sz') \<in> set (regular_files_items rest)" by auto
    from regular_files_items_head[OF this] nm show False by simp
  qed
  with d2 show ?case by simp
next
  case (8 nm sub rest)
  then have d1: "distinct (map fst (regular_files (Dir sub)))"
    and d2: "distinct (map fst (regular_files_items rest))" and nm: "nm \<notin> fst ` set rest"
    by simp_all
  have a: "distinct (map fst (map (\<lambda>(q, sz). (nm # q, sz)) (regular_files (Dir sub))))"
    using d1 unfolding under_distinct .
  have b: "fst ` set (map (\<lambda>(q, sz). (nm # q, sz)) (regular_files (Dir sub)))
      \<inter> fst ` set (regular_files_items rest) = {}"
  proof (rule ccontr)
    assume "\<not> ?thesis"
    then obtain p y y' where p1: "(p, y) \<in> set (map (\<lambda>(q, sz). (nm # q, sz)) (regular_files (Dir sub)))"
      and p2: "(p, y') \<in> set (regular_files_items rest)" by fastforce
    from p1 obtain q where "p = nm # q" unfolding under_mem by blast
    with regular_files_items_head[OF p2] nm show False by simp
  qed
  have "regular_files_items ((nm, Dir sub) # rest)
      = map (\<lambda>(q, sz). (nm # q, sz)) (regular_files (Dir sub)) @ regular_files_items rest"
    by simp
  then show ?case using a b d2 by (simp only: map_append distinct_append set_map)
qed simp_all

lemma info_of_under:
  "map (info_of rel d) (map (\<lambda>(q, m). (nm # q, m)) xs) = map (info_of (rel @ [nm]) (d + 1)) xs"
  by (induction xs) (auto simp: info_of_def)

lemma scan_recursive_unfold:
  "current_depth \<le> max_depth \<Longrightarrow>
   scan_recursive max_depth rel current current_depth =
     info_of rel current_depth ([], current) #
       (if current_depth < max_depth then
          (case current of Dir items \<Rightarrow> scan_subdirs max_depth rel items current_depth | _ \<Rightarrow> [])
        else [])"
  by (simp add: info_of_def case_prod_beta Let_def)

lemma emitted_unfold:
  "emitted k n = ([], n) #
     (case k of 0 \<Rightarrow> [] | Suc k' \<Rightarrow> (case n of Dir items \<Rightarrow> emitted_items k' items | _ \<Rightarrow> []))"
  by (cases n; cases k) simp_all

lemma scan_emitted:
  "current_depth \<le> max_depth \<Longrightarrow>
   scan_recursive max_depth rel current current_depth
   = map (info_of rel current_depth) (emitted (nat (max_depth - current_depth)) current)"
  "current_depth < max_depth \<Longrightarrow>
   scan_subdirs max_depth rel items current_depth
   = map (info_of rel current_depth) (emitted_items (nat (max_depth - current_depth - 1)) items)"
proof (induction max_depth rel current current_depth and max_depth rel items current_depth
    rule: scan_recursive_scan_subdirs.induct)
  case (1 max_depth rel current current_depth)
  show ?case
  proof (cases "current_depth < max_depth")
    case False
    with 1(2) have "nat (max_depth - current_depth) = 0" by simp
    with False 1(2) show ?thesis
      unfolding scan_recursive_unfold[OF 1(2)] emitted_unfold[of _ current] by simp
  next
    case True
    then have k: "nat (max_depth - current_depth) = Suc (nat (max_depth - current_depth - 1))"
      by simp
    show ?thesis
    proof (cases current)
      case (Dir items)
      have "scan_subdirs max_depth rel items current_depth
        = map (info_of rel current_depth) (emitted_items (nat (max_depth - current_depth - 1)) items)"
      proof -
        have n: "\<not> max_depth < current_depth" using 1(2) by simp
        show ?thesis
          by (rule 1(1)[OF n refl prod.collapse refl True Dir True])
      qed
      then show ?thesis
        unfolding scan_recursive_unfold[OF 1(2)] emitted_unfold[of _ current] k
        using True Dir by simp
    qed (simp_all add: scan_recursive_unfold[OF 1(2)] True del: scan_recursive.simps)
  qed
next
  case (4 max_depth rel nm sub rest current_depth)
  then have a: "scan_recursive max_depth (rel @ [nm]) (Dir sub) (current_depth + 1)
      = map (info_of (rel @ [nm]) (current_depth + 1))
          (emitted (nat (max_depth - (current_depth + 1))) (Dir sub))"
    and b: "scan_subdirs max_depth rel rest current_depth
      = map (info_of rel current_depth) (emitted_items (nat (max_depth - current_depth - 1)) rest)"
    by simp_all
  have e: "max_depth - (current_depth + 1) = max_depth - current_depth - 1" by simp
  show ?case
    unfolding scan_subdirs.simps emitted_items.simps map_append info_of_under a b e ..
next
  case (5 max_depth rel nm rest current_depth)
  then have a: "scan_recursive max_depth (rel @ [nm]) Unreadable (current_depth + 1)
      = map (info_of (rel @ [nm]) (current_depth + 1))
          (emitted (nat (max_depth - (current_depth + 1))) Unreadable)"
    and b: "scan_subdirs max_depth rel rest current_depth
      = map (info_of rel current_depth) (emitted_items (nat (max_depth - current_depth - 1)) rest)"
    by simp_all
  have e: "max_depth - (current_depth + 1) = max_depth - current_depth - 1" by simp
  show ?case
    unfolding scan_subdirs.simps emitted_items.simps map_append info_of_under a b e ..
qed simp_all

section \<open>The directories reached by a scan\<close>

lemma emitted_items_head:
  "(q, m) \<in> set (emitted_items k items) \<Longrightarrow> \<exists>nm q'. q = nm # q' \<and> nm \<in> fst ` set items"
proof (induction items)
  case Nil
  then show ?case by simp
next
  case (Cons a items)
  obtain nm c where a: "a = (nm, c)" by (cases a)
  have here: "(q, m) \<in> set (map (\<lambda>(q, m). (nm # q, m)) (emitted k c)) \<Longrightarrow> ?case"
  proof -
    assume "(q, m) \<in> set (map (\<lambda>(q, m). (nm # q, m)) (emitted k c))"
    then obtain q' where "q = nm # q'" unfolding under_mem by blast
    then show ?case unfolding a by simp
  qed
  have there: "(q, m) \<in> set (emitted_items k items) \<Longrightarrow> ?case"
    using Cons.IH by auto
  show ?case
  proof (cases c)
    case (Dir sub)
    with Cons.prems have "(q, m) \<in> set (map (\<lambda>(q, m). (nm # q, m)) (emitted k c))
        \<or> (q, m) \<in> set (emitted_items k items)"
      unfolding a by (simp del: emitted.simps)
    with here there show ?thesis by blast
  next
    case Unreadable
    with Cons.prems have "(q, m) \<in> set (map (\<lambda>(q, m). (nm # q, m)) (emitted k c))
        \<or> (q, m) \<in> set (emitted_items k items)"
      unfolding a by (simp del: emitted.simps)
    with here there show ?thesis by blast
  next
    case (File x)
    with Cons.prems there show ?thesis unfolding a by simp
  next
    case Special
    with Cons.prems there show ?thesis unfolding a by simp
  next
    case Broken
    with Cons.prems show ?thesis unfolding a by simp
  qed
qed

lemma emitted_sound:
  "wf_names n \<Longrightarrow> (q, m) \<in> set (emitted k n) \<Longrightarrow>
     node_at n q = Some m \<and> length q \<le> k \<and> (\<forall>x\<in>set q. valid_name x)"
  "wf_items items \<Longrightarrow> (q, m) \<in> set (emitted_items k items) \<Longrightarrow>
     \<exists>nm c q'. q = nm # q' \<and> (nm, c) \<in> set items \<and> node_at c q' = Some m \<and> length q' \<le> k
       \<and> (\<forall>x\<in>set q. valid_name x)"
proof (induction k n and k items arbitrary: q and q rule: emitted_emitted_items.induct)
  case (1 k items)
  then have d: "distinct (map fst items)" and w: "wf_items items" by simp_all
  show ?case
  proof (cases "q = []")
    case True
    with 1(3) have "m = Dir items"
      using emitted_items_head[of q m _ items] by (cases k) auto
    with True show ?thesis by simp
  next
    case False
    with 1(3) obtain k' where k: "k = Suc k'" and mem: "(q, m) \<in> set (emitted_items k' items)"
      by (cases k) auto
    from 1(1)[OF k w mem] obtain nm c q' where
      *: "q = nm # q'" "(nm, c) \<in> set items" "node_at c q' = Some m" "length q' \<le> k'"
         "\<forall>x\<in>set q. valid_name x" by blast
    with node_at_Dir_Cons[OF d, of nm q' m] k show ?thesis by auto
  qed
next
  case (7 k nm sz rest)
  then have "wf_items rest" "(q, m) \<in> set (emitted_items k rest)" by simp_all
  from 7(1)[OF this] show ?case by auto
next
  case (8 k nm sub rest)
  then have w1: "wf_names (Dir sub)" and w2: "wf_items rest" and v: "valid_name nm" by simp_all
  from 8(4) have "(q, m) \<in> set (map (\<lambda>(q, m). (nm # q, m)) (emitted k (Dir sub)))
      \<or> (q, m) \<in> set (emitted_items k rest)"
    by (simp del: emitted.simps)
  then show ?case
  proof
    assume "(q, m) \<in> set (map (\<lambda>(q, m). (nm # q, m)) (emitted k (Dir sub)))"
    then obtain q' where q: "q = nm # q'" and mem: "(q', m) \<in> set (emitted k (Dir sub))"
      unfolding under_mem by blast
    from 8(1)[OF w1 mem] v q show ?thesis by auto
  next
    assume "(q, m) \<in> set (emitted_items k rest)"
    from 8(2)[OF w2 this] show ?thesis by auto
  qed
next
  case (9 k nm rest)
  then have w2: "wf_items rest" and v: "valid_name nm" by simp_all
  from 9(4) have "(q, m) \<in> set (map (\<lambda>(q, m). (nm # q, m)) (emitted k Unreadable))
      \<or> (q, m) \<in> set (emitted_items k rest)"
    by (simp del: emitted.simps)
  then show ?case
  proof
    assume "(q, m) \<in> set (map (\<lambda>(q, m). (nm # q, m)) (emitted k Unreadable))"
    then obtain q' where q: "q = nm # q'" and mem: "(q', m) \<in> set (emitted k Unreadable)"
      unfolding under_mem by blast
    then have "q' = []" "m = Unreadable" by simp_all
    with v q show ?thesis by auto
  next
    assume "(q, m) \<in> set (emitted_items k rest)"
    from 9(2)[OF w2 this] show ?thesis by auto
  qed
next
  case (10 k nm rest)
  then have "wf_items rest" "(q, m) \<in> set (emitted_items k rest)" by simp_all
  from 10(1)[OF this] show ?case by auto
qed auto






section \<open>Relative paths as strings\<close>

lemma slash_prefix_absurd:
  "CHR ''/'' \<notin> set y \<Longrightarrow> prefix (x @ CHR ''/'' # r) y \<Longrightarrow> False"
proof -
  assume n: "CHR ''/'' \<notin> set y" and "prefix (x @ CHR ''/'' # r) y"
  then obtain t where "y = (x @ CHR ''/'' # r) @ t" unfolding prefix_def by blast
  then have "CHR ''/'' \<in> set y" by simp
  with n show False by simp
qed

lemma slash_prefix_split:
  "CHR ''/'' \<notin> set x \<Longrightarrow> CHR ''/'' \<notin> set y \<Longrightarrow>
   prefix (x @ CHR ''/'' # r) (y @ CHR ''/'' # t) \<Longrightarrow> x = y \<and> prefix r t"
proof (induction x arbitrary: y)
  case Nil
  then show ?case by (cases y) auto
next
  case (Cons a x)
  then show ?case by (cases y) auto
qed

lemma join_path_Cons:
  "ys \<noteq> [] \<Longrightarrow> join_path (y # ys) = y @ CHR ''/'' # join_path ys"
  by (cases ys) simp_all

lemma join_path_nonempty:
  "p \<noteq> [] \<Longrightarrow> \<forall>x\<in>set p. valid_name x \<Longrightarrow> join_path p \<noteq> [] \<and> hd (join_path p) \<noteq> CHR ''/''"
proof -
  assume "p \<noteq> []" and v: "\<forall>x\<in>set p. valid_name x"
  then obtain x xs where p: "p = x # xs" by (cases p) auto
  with v have x: "x \<noteq> []" "CHR ''/'' \<notin> set x" by (simp_all add: valid_name_def)
  then have "hd x \<noteq> CHR ''/''" by (cases x) auto
  with x show ?thesis unfolding p by (cases xs) simp_all
qed

lemma join_path_not_dot:
  "p \<noteq> [] \<Longrightarrow> \<forall>x\<in>set p. valid_name x \<Longrightarrow> join_path p \<noteq> ''.''"
proof -
  assume "p \<noteq> []" and v: "\<forall>x\<in>set p. valid_name x"
  then obtain x xs where p: "p = x # xs" by (cases p) auto
  show ?thesis
  proof (cases xs)
    case Nil
    with v p show ?thesis by (simp add: valid_name_def)
  next
    case (Cons y ys)
    from v p have "x \<noteq> []" by (simp add: valid_name_def)
    then have "length (join_path p) \<ge> 2" unfolding p Cons by (cases x) simp_all
    then show ?thesis by auto
  qed
qed

lemma relative_path_of_Nil: "relative_path_of [] = ''/''"
  by (simp add: relative_path_of_def path_str_def)

lemma relative_path_of_valid:
  "p \<noteq> [] \<Longrightarrow> \<forall>x\<in>set p. valid_name x \<Longrightarrow>
   relative_path_of p = join_path p \<and> relative_path_of p \<noteq> ''/''"
proof -
  assume ne: "p \<noteq> []" and v: "\<forall>x\<in>set p. valid_name x"
  from join_path_not_dot[OF ne v] ne have e: "relative_path_of p = join_path p"
    by (simp add: relative_path_of_def path_str_def)
  from join_path_nonempty[OF ne v] have "join_path p \<noteq> ''/''" by auto
  with e show ?thesis by simp
qed

lemma join_path_prefix:
  "p \<noteq> [] \<Longrightarrow> q \<noteq> [] \<Longrightarrow> \<forall>x\<in>set p. valid_name x \<Longrightarrow> \<forall>x\<in>set q. valid_name x \<Longrightarrow>
   prefix (join_path p @ ''/'') (join_path q) \<Longrightarrow> strict_prefix p q"
proof (induction p arbitrary: q)
  case Nil
  then show ?case by simp
next
  case (Cons x xs)
  from Cons.prems(2) obtain y ys where q: "q = y # ys" by (cases q) auto
  from Cons.prems(3) have x: "CHR ''/'' \<notin> set x" by (simp add: valid_name_def)
  from Cons.prems(4) q have y: "CHR ''/'' \<notin> set y" by (simp add: valid_name_def)
  have ys: "ys \<noteq> []"
  proof
    assume "ys = []"
    with Cons.prems(5) q have "prefix (join_path (x # xs) @ ''/'') y" by simp
    moreover have "\<exists>r. join_path (x # xs) @ ''/'' = x @ CHR ''/'' # r"
      by (cases xs) simp_all
    ultimately show False using slash_prefix_absurd[OF y] by metis
  qed
  have jq: "join_path q = y @ CHR ''/'' # join_path ys"
    unfolding q by (rule join_path_Cons[OF ys])
  show ?case
  proof (cases xs)
    case Nil
    with Cons.prems(5) have "prefix (x @ CHR ''/'' # []) (y @ CHR ''/'' # join_path ys)"
      unfolding jq by simp
    from slash_prefix_split[OF x y this] have "x = y" by simp
    with ys show ?thesis unfolding Nil q by (simp add: strict_prefix_def)
  next
    case (Cons x' xs')
    then have "join_path (x # xs) @ ''/'' = x @ CHR ''/'' # (join_path xs @ ''/'')"
      by simp
    with Cons.prems(5) have "prefix (x @ CHR ''/'' # (join_path xs @ ''/'')) (y @ CHR ''/'' # join_path ys)"
      unfolding jq by simp
    from slash_prefix_split[OF x y this] have e: "x = y" and pr: "prefix (join_path xs @ ''/'') (join_path ys)"
      by simp_all
    have "xs \<noteq> []" using Cons by simp
    from Cons.IH[OF this ys _ _ pr] Cons.prems(3,4) q have "strict_prefix xs ys" by simp
    with e show ?thesis unfolding q by simp
  qed
qed

lemma strict_descendant_paths:
  assumes "\<forall>x\<in>set p. valid_name x" and "\<forall>x\<in>set q. valid_name x"
    and "strict_descendant (relative_path_of p) (relative_path_of q)"
  shows "strict_prefix p q"
proof (cases "p = []")
  case True
  with assms(3) have "relative_path_of q \<noteq> ''/''"
    by (simp add: strict_descendant_def relative_path_of_Nil)
  then have "q \<noteq> []" using relative_path_of_Nil by auto
  with True show ?thesis by (simp add: strict_prefix_def)
next
  case False
  from relative_path_of_valid[OF False assms(1)]
  have rp: "relative_path_of p = join_path p" and ns: "relative_path_of p \<noteq> ''/''" by blast+
  from assms(3) ns have pr: "prefix (relative_path_of p @ ''/'') (relative_path_of q)"
    by (simp add: strict_descendant_def)
  have qne: "q \<noteq> []"
  proof
    assume "q = []"
    with pr have "prefix (join_path p @ ''/'') ''/''" by (simp add: rp relative_path_of_Nil)
    then have "join_path p = []" by (cases "join_path p") auto
    with join_path_nonempty[OF False assms(1)] show False by simp
  qed
  from relative_path_of_valid[OF qne assms(2)] have "relative_path_of q = join_path q" by simp
  with pr rp have "prefix (join_path p @ ''/'') (join_path q)" by simp
  from join_path_prefix[OF False qne assms(1,2) this] show ?thesis .
qed

section \<open>Properties of the tree scan\<close>

lemma scan_directory_tree_emitted:
  "0 \<le> max_depth \<Longrightarrow>
   scan_directory_tree root_dir max_depth = map (info_of [] 0) (emitted (nat max_depth) root_dir)"
  unfolding scan_directory_tree_def using scan_emitted(1)[of 0 max_depth "[]" root_dir] by simp

lemma totals_child:
  "(nm, c) \<in> set items \<Longrightarrow>
   sum_list (map snd (regular_files c)) \<le> sum_list (map snd (regular_files_items items))
   \<and> length (regular_files c) \<le> length (regular_files_items items)"
proof (induction items)
  case Nil
  then show ?case by simp
next
  case (Cons a items)
  obtain nm' c' where a: "a = (nm', c')" by (cases a)
  show ?case
  proof (cases "(nm, c) = (nm', c')")
    case True
    then show ?thesis unfolding a
      by (cases c') (simp_all add: snd_comp_prefix)
  next
    case False
    with Cons.prems have "(nm, c) \<in> set items" unfolding a by auto
    from Cons.IH[OF this] show ?thesis unfolding a
      by (cases c') (simp_all add: snd_comp_prefix del: regular_files.simps)
  qed
qed

lemma totals_node_at:
  "node_at n q = Some m \<Longrightarrow>
   fst (get_dir_size_and_files m) \<le> fst (get_dir_size_and_files n)
   \<and> snd (get_dir_size_and_files m) \<le> snd (get_dir_size_and_files n)"
proof (induction q arbitrary: n)
  case Nil
  then show ?case by simp
next
  case (Cons nm q)
  then obtain c where c: "child_of n nm = Some c" "node_at c q = Some m"
    by (auto split: option.splits)
  then obtain items where n: "n = Dir items" and "map_of items nm = Some c"
    by (auto simp: child_of_def split: node.splits)
  then have "(nm, c) \<in> set items" by (auto dest: map_of_SomeD)
  from totals_child[OF this] have "fst (get_dir_size_and_files c) \<le> fst (get_dir_size_and_files n)
   \<and> snd (get_dir_size_and_files c) \<le> snd (get_dir_size_and_files n)"
    unfolding n totals_regular_files(1) by simp
  with Cons.IH[OF c(2)] show ?case by linarith
qed

lemma wf_node_at: "wf_names n \<Longrightarrow> node_at n q = Some m \<Longrightarrow> wf_names m"
proof (induction q arbitrary: n)
  case Nil
  then show ?case by simp
next
  case (Cons nm q)
  then obtain c where c: "child_of n nm = Some c" "node_at c q = Some m"
    by (auto split: option.splits)
  then obtain items where n: "n = Dir items" and "map_of items nm = Some c"
    by (auto simp: child_of_def split: node.splits)
  then have "(nm, c) \<in> set items" by (auto dest: map_of_SomeD)
  with Cons.prems(1) have "wf_names c" unfolding n using wf_items_set by auto
  from Cons.IH[OF this c(2)] show ?case .
qed

lemma regular_files_set:
  "wf_names n \<Longrightarrow> set (regular_files n) = {(q, sz). q \<noteq> [] \<and> node_at n q = Some (File sz)}"
  using regular_files_mem(1)[of n] by auto

text \<open>
  Claim C8. In the records of one scan of a tree, whenever the relative path of a
  record \<open>b\<close> is a strict descendant of the relative path of a record \<open>a\<close>, the size
  and the file count of \<open>a\<close> are at least those of \<open>b\<close>.
\<close>

theorem scan_aggregation_monotonic:
  assumes "wf_names root_dir"
  shows "\<forall>a\<in>set (scan_directory_tree root_dir max_depth).
         \<forall>b\<in>set (scan_directory_tree root_dir max_depth).
           strict_descendant (relative_path a) (relative_path b)
           \<longrightarrow> size_bytes b \<le> size_bytes a \<and> file_count b \<le> file_count a"
proof (cases "0 \<le> max_depth")
  case False
  then show ?thesis by (simp add: scan_directory_tree_def)
next
  case True
  show ?thesis
  proof (intro ballI impI)
    fix a b
    assume "a \<in> set (scan_directory_tree root_dir max_depth)"
      and "b \<in> set (scan_directory_tree root_dir max_depth)"
      and desc: "strict_descendant (relative_path a) (relative_path b)"
    then obtain qa ma qb mb where
      a: "a = info_of [] 0 (qa, ma)" "(qa, ma) \<in> set (emitted (nat max_depth) root_dir)" and
      b: "b = info_of [] 0 (qb, mb)" "(qb, mb) \<in> set (emitted (nat max_depth) root_dir)"
      unfolding scan_directory_tree_emitted[OF True] by auto
    from emitted_sound(1)[OF assms a(2)] have
      na: "node_at root_dir qa = Some ma" and va: "\<forall>x\<in>set qa. valid_name x" by simp_all
    from emitted_sound(1)[OF assms b(2)] have
      nb: "node_at root_dir qb = Some mb" and vb: "\<forall>x\<in>set qb. valid_name x" by simp_all
    from desc have "strict_descendant (relative_path_of qa) (relative_path_of qb)"
      unfolding a(1) b(1) by (simp add: info_of_def)
    from strict_descendant_paths[OF va vb this] obtain r where "qb = qa @ r"
      by (auto simp: strict_prefix_def prefix_def)
    with nb na have "node_at ma r = Some mb" by (simp add: node_at_append)
    from totals_node_at[OF this]
    show "size_bytes b \<le> size_bytes a \<and> file_count b \<le> file_count a"
      unfolding a(1) b(1) by (simp add: info_of_def)
  qed
qed

lemma example_tree_wf: "wf_names example_tree"
  by code_simp


lemma example_scan_2:
  "scan_directory_tree example_tree 2 =
     [\<lparr>relative_path = ''/'', depth = 0, size_bytes = 30, file_count = 2\<rparr>,
      \<lparr>relative_path = ''a'', depth = 1, size_bytes = 30, file_count = 2\<rparr>,
      \<lparr>relative_path = ''a/b'', depth = 2, size_bytes = 10, file_count = 1\<rparr>,
      \<lparr>relative_path = ''a/c'', depth = 2, size_bytes = 20, file_count = 1\<rparr>]"
  by code_simp


lemma example_scan_0:
  "scan_directory_tree example_tree 0 =
     [\<lparr>relative_path = ''/'', depth = 0, size_bytes = 30, file_count = 2\<rparr>]"
  by code_simp

lemma emitted_Cons: "emitted k n = ([], n) # tl (emitted k n)"
  by (cases n; cases k) simp_all

lemma emitted_0: "emitted 0 n = [([], n)]"
  by (cases n) simp_all

theorem scan_aggregation_monotonic_witness:
  "wf_names example_tree
   \<and> \<lparr>relative_path = ''a'', depth = 1, size_bytes = 30, file_count = 2\<rparr>
       \<in> set (scan_directory_tree example_tree 2)
   \<and> \<lparr>relative_path = ''a/b'', depth = 2, size_bytes = 10, file_count = 1\<rparr>
       \<in> set (scan_directory_tree example_tree 2)
   \<and> strict_descendant ''a'' ''a/b''
   \<and> (10::nat) \<le> 30 \<and> (1::nat) \<le> 2"
proof -
  have d: "strict_descendant ''a'' ''a/b''" by code_simp
  from scan_aggregation_monotonic[OF example_tree_wf, of 2] example_tree_wf d
  show ?thesis unfolding example_scan_2 by simp
qed

text \<open>
  Claim C4. For a depth bound of at least 0, every record of the scan belongs to a
  node of the tree, found at the record's relative path and depth, and reports the sum
  of the sizes and the number of all regular files beneath that node, at whatever depth
  below it they lie. The first record is the root's, with path \<open>/\<close> and depth 0, and
  reports the totals over all regular files of the tree; with \<open>max_depth = 0\<close> it is
  the only record.
\<close>

theorem scan_sizes_unbounded:
  assumes "wf_names root_dir" and "0 \<le> max_depth"
  shows "(\<forall>r\<in>set (scan_directory_tree root_dir max_depth).
           \<exists>p d fs. (\<forall>x\<in>set p. valid_name x)
             \<and> relative_path r = relative_path_of p \<and> depth r = int (length p)
             \<and> node_at root_dir p = Some d
             \<and> distinct (map fst fs)
             \<and> set fs = {(q, sz). q \<noteq> [] \<and> node_at d q = Some (File sz)}
             \<and> size_bytes r = sum_list (map snd fs) \<and> file_count r = length fs)
       \<and> (\<exists>r0 others fs. scan_directory_tree root_dir max_depth = r0 # others
             \<and> relative_path r0 = ''/'' \<and> depth r0 = 0
             \<and> distinct (map fst fs)
             \<and> set fs = {(q, sz). q \<noteq> [] \<and> node_at root_dir q = Some (File sz)}
             \<and> size_bytes r0 = sum_list (map snd fs) \<and> file_count r0 = length fs
             \<and> (max_depth = 0 \<longrightarrow> others = []))"
proof
  show "\<forall>r\<in>set (scan_directory_tree root_dir max_depth).
           \<exists>p d fs. (\<forall>x\<in>set p. valid_name x)
             \<and> relative_path r = relative_path_of p \<and> depth r = int (length p)
             \<and> node_at root_dir p = Some d
             \<and> distinct (map fst fs)
             \<and> set fs = {(q, sz). q \<noteq> [] \<and> node_at d q = Some (File sz)}
             \<and> size_bytes r = sum_list (map snd fs) \<and> file_count r = length fs"
  proof
    fix r assume "r \<in> set (scan_directory_tree root_dir max_depth)"
    then obtain p d where r: "r = info_of [] 0 (p, d)"
      and mem: "(p, d) \<in> set (emitted (nat max_depth) root_dir)"
      unfolding scan_directory_tree_emitted[OF assms(2)] by auto
    from emitted_sound(1)[OF assms(1) mem] have
      n: "node_at root_dir p = Some d" and v: "\<forall>x\<in>set p. valid_name x" by simp_all
    from wf_node_at[OF assms(1) n] have w: "wf_names d" .
    have "(\<forall>x\<in>set p. valid_name x)
             \<and> relative_path r = relative_path_of p \<and> depth r = int (length p)
             \<and> node_at root_dir p = Some d
             \<and> distinct (map fst (regular_files d))
             \<and> set (regular_files d) = {(q, sz). q \<noteq> [] \<and> node_at d q = Some (File sz)}
             \<and> size_bytes r = sum_list (map snd (regular_files d))
             \<and> file_count r = length (regular_files d)"
      using v n regular_files_distinct(1)[OF w] regular_files_set[OF w]
      unfolding r by (simp add: info_of_def totals_regular_files(1))
    then show "\<exists>p d fs. (\<forall>x\<in>set p. valid_name x)
             \<and> relative_path r = relative_path_of p \<and> depth r = int (length p)
             \<and> node_at root_dir p = Some d
             \<and> distinct (map fst fs)
             \<and> set fs = {(q, sz). q \<noteq> [] \<and> node_at d q = Some (File sz)}
             \<and> size_bytes r = sum_list (map snd fs) \<and> file_count r = length fs"
      by blast
  qed
next
  define others where "others = map (info_of [] 0) (tl (emitted (nat max_depth) root_dir))"
  have e: "emitted (nat max_depth) root_dir = ([], root_dir) # tl (emitted (nat max_depth) root_dir)"
    by (rule emitted_Cons)
  have s: "scan_directory_tree root_dir max_depth = info_of [] 0 ([], root_dir) # others"
    unfolding scan_directory_tree_emitted[OF assms(2)] others_def by (subst e) simp
  have z: "max_depth = 0 \<longrightarrow> others = []"
    unfolding others_def by (simp add: emitted_0)
  have "scan_directory_tree root_dir max_depth = info_of [] 0 ([], root_dir) # others
             \<and> relative_path (info_of [] 0 ([], root_dir)) = ''/''
             \<and> depth (info_of [] 0 ([], root_dir)) = 0
             \<and> distinct (map fst (regular_files root_dir))
             \<and> set (regular_files root_dir) = {(q, sz). q \<noteq> [] \<and> node_at root_dir q = Some (File sz)}
             \<and> size_bytes (info_of [] 0 ([], root_dir)) = sum_list (map snd (regular_files root_dir))
             \<and> file_count (info_of [] 0 ([], root_dir)) = length (regular_files root_dir)
             \<and> (max_depth = 0 \<longrightarrow> others = [])"
    using s z regular_files_distinct(1)[OF assms(1)] regular_files_set[OF assms(1)]
    by (simp add: info_of_def totals_regular_files(1) relative_path_of_Nil)
  then show "\<exists>r0 others fs. scan_directory_tree root_dir max_depth = r0 # others
             \<and> relative_path r0 = ''/'' \<and> depth r0 = 0
             \<and> distinct (map fst fs)
             \<and> set fs = {(q, sz). q \<noteq> [] \<and> node_at root_dir q = Some (File sz)}
             \<and> size_bytes r0 = sum_list (map snd fs) \<and> file_count r0 = length fs
             \<and> (max_depth = 0 \<longrightarrow> others = [])"
    by blast
qed

theorem scan_sizes_unbounded_witness:
  "wf_names example_tree \<and> (0::int) \<le> 0
   \<and> scan_directory_tree example_tree 0
       = [\<lparr>relative_path = ''/'', depth = 0, size_bytes = 30, file_count = 2\<rparr>]
   \<and> (\<exists>fs. distinct (map fst fs)
          \<and> set fs = {(q, sz). q \<noteq> [] \<and> node_at example_tree q = Some (File sz)}
          \<and> sum_list (map snd fs) = 30 \<and> length fs = 2)"
proof -
  have z: "(0::int) \<le> 0" by simp
  from scan_sizes_unbounded[OF example_tree_wf z]
  obtain r0 others fs where "scan_directory_tree example_tree 0 = r0 # others"
    and fs: "distinct (map fst fs)"
      "set fs = {(q, sz). q \<noteq> [] \<and> node_at example_tree q = Some (File sz)}"
      "size_bytes r0 = sum_list (map snd fs)" "file_count r0 = length fs"
    by blast
  then have "r0 = \<lparr>relative_path = ''/'', depth = 0, size_bytes = 30, file_count = 2\<rparr>"
    unfolding example_scan_0 by simp
  with fs have "distinct (map fst fs)
          \<and> set fs = {(q, sz). q \<noteq> [] \<and> node_at example_tree q = Some (File sz)}
          \<and> sum_list (map snd fs) = 30 \<and> length fs = 2" by simp
  then show ?thesis using example_tree_wf example_scan_0 by blast
qed






section \<open>Skipping a drive without a name\<close>



section \<open>Registration and the uniqueness of ids\<close>











end
